theory Spec2Isabelle
  imports Complex_Main
begin

section \<open>The thread pool of src/index.js\<close>

text \<open>
  The class \<open>ThreadPool\<close> owns three containers: the array \<open>queue\<close> of waiting calls,
  the array \<open>freeWorkers\<close> (used as a stack: \<open>push\<close> and \<open>pop\<close> work at its end) and the
  Set \<open>workers\<close>. Every Worker object carries two handler slots, \<open>onmessage\<close> and
  \<open>onerror\<close>. All methods run to completion on one thread, so each method is a function
  from pool states to pool states.

  A Worker object is named by a natural number. The pair \<open>resolve\<close>/\<open>reject\<close> that
  \<open>new Promise\<close> hands to its executor is named by the number of the promise; the field
  \<open>promises\<close> counts the promises made so far, so that every \<open>dispatch\<close> gets a fresh
  one. What the pool does to the outside world (\<open>postMessage\<close>, \<open>terminate\<close>,
  \<open>resolve\<close>, \<open>reject\<close>) is recorded, in order, in the field \<open>trace\<close>.

  A method either returns or throws. A method that can throw after it has changed the pool
  gives back both: the value thrown, if any, and the state it leaves.
\<close>

subsection \<open>Values\<close>

type_synonym worker = nat
type_synonym future = nat

text \<open>A value a caller passes to \<open>dispatch\<close>: one that the structured clone algorithm
  copies, or one that it refuses (a function, a symbol, a live handle).\<close>

datatype 'a jsvalue = Plain 'a | Unclonable

text \<open>Values thrown or used to reject: the two built-in errors the source constructs, the
  \<open>DataCloneError\<close> that \<open>postMessage\<close> throws, and whatever an \<open>ErrorEvent\<close> of a
  worker carries in its field \<open>error\<close>.\<close>

datatype 'a jserror = RangeError string | TypeError string | DataCloneError | Thrown 'a

text \<open>The argument \<open>size\<close> is a JavaScript number: a finite number (every finite double is
  a rational), \<open>NaN\<close>, or an infinity.\<close>

datatype number = Finite rat | NaN | PosInfinity | NegInfinity

datatype 'a event =
    PostMessage worker future "'a jsvalue list"
  | PostMessageThrew worker future "'a jsvalue list"
  | Terminate worker
  | Resolve future 'a
  | Reject future "'a jserror"

record 'a pool =
  queue :: "(future \<times> 'a jsvalue list) list"
  freeWorkers :: "worker list"
  workers :: "worker list"
  onmessage :: "worker \<Rightarrow> future option"
  onerror :: "worker \<Rightarrow> future option"
  trace :: "'a event list"
  promises :: nat

text \<open>
  \<^item> An entry \<open>[resolve, reject, args]\<close> of \<open>queue\<close> is the pair of the promise and \<open>args\<close>.
  \<^item> \<open>workers\<close> lists the Set in insertion order, which is the order \<open>forEach\<close> visits.
  \<^item> A handler slot holds \<open>None\<close> for \<open>null\<close>, and \<open>Some f\<close> for the closure that
    \<open>start\<close> builds for promise \<open>f\<close>; the worker that closure captures is the worker it is
    stored on.
  \<^item> \<open>PostMessage w f args\<close> records that \<open>worker.postMessage(args)\<close> of line 88, made
    for promise \<open>f\<close>, has sent the message; \<open>PostMessageThrew w f args\<close> records that
    this call threw and sent nothing.
\<close>

type_synonym 'a outcome = "'a jserror option \<times> 'a pool"

subsection \<open>The constructor\<close>

text \<open>The comparison \<open>size < 1\<close> of line 14; every comparison with \<open>NaN\<close> is false.\<close>

fun less_than_one :: "number \<Rightarrow> bool" where
  "less_than_one (Finite q) = (q < 1)"
| "less_than_one NaN = False"
| "less_than_one PosInfinity = False"
| "less_than_one NegInfinity = True"

text \<open>\<open>Array.from({ length: size }, ...)\<close> reads the length with the language's
  \<open>ToLength\<close>: truncated towards zero, at least 0, at most \<open>2^53 - 1\<close>, and 0 for \<open>NaN\<close>.\<close>

fun toLength :: "number \<Rightarrow> nat" where
  "toLength (Finite q) = (if q \<le> 0 then 0 else min (nat \<lfloor>q\<rfloor>) (2 ^ 53 - 1))"
| "toLength NaN = 0"
| "toLength PosInfinity = 2 ^ 53 - 1"
| "toLength NegInfinity = 0"

text \<open>
  Lines 12 to 21. The queue is set first, then the guard runs, then the workers are made:
  \<open>Array.from\<close> creates the array with \<open>new Array(len)\<close>, which throws a \<open>RangeError\<close>
  for a length above \<open>2^32 - 1\<close> before any element is produced. A fresh Worker has both
  handler slots \<open>null\<close>. The function \<open>fn\<close> only enters the text the workers are started
  from. The default of \<open>size\<close> is computed by the caller's side of the call.
\<close>

definition construct :: "string \<Rightarrow> number \<Rightarrow> 'a jserror + 'a pool" where
  "construct fn sz =
     (if less_than_one sz then Inl (RangeError ''size must greater than 0'')
      else let len = toLength sz in
        if len > 2 ^ 32 - 1 then Inl (RangeError ''Invalid array length'')
        else Inr \<lparr> queue = [], freeWorkers = [0..<len], workers = [0..<len],
                   onmessage = (\<lambda>w. None), onerror = (\<lambda>w. None),
                   trace = [], promises = 0 \<rparr>)"

subsection \<open>The gauges\<close>

definition getFreeWorkerCount :: "'a pool \<Rightarrow> int" where
  "getFreeWorkerCount s = int (length (freeWorkers s))"

definition getRunningWorkerCount :: "'a pool \<Rightarrow> int" where
  "getRunningWorkerCount s = int (length (workers s)) - int (length (freeWorkers s))"

definition getWaitingEventCount :: "'a pool \<Rightarrow> int" where
  "getWaitingEventCount s = int (length (queue s))"

subsection \<open>start, onFinish and the two handlers\<close>

definition resolve :: "future \<Rightarrow> 'a \<Rightarrow> 'a pool \<Rightarrow> 'a pool" where
  "resolve f v s = s\<lparr>trace := trace s @ [Resolve f v]\<rparr>"

definition reject :: "future \<Rightarrow> 'a jserror \<Rightarrow> 'a pool \<Rightarrow> 'a pool" where
  "reject f e s = s\<lparr>trace := trace s @ [Reject f e]\<rparr>"

definition terminate :: "worker \<Rightarrow> 'a pool \<Rightarrow> 'a pool" where
  "terminate x s = s\<lparr>trace := trace s @ [Terminate x]\<rparr>"

text \<open>\<open>postMessage\<close> clones its argument and throws a \<open>DataCloneError\<close> when some
  value in it cannot be cloned.\<close>

definition clonable :: "'a jsvalue list \<Rightarrow> bool" where
  "clonable args \<longleftrightarrow> Unclonable \<notin> set args"

text \<open>Lines 77 to 93. When \<open>postMessage\<close> throws at line 88, the worker has been popped
  and both handlers are set.\<close>

definition start :: "future \<Rightarrow> 'a jsvalue list \<Rightarrow> 'a pool \<Rightarrow> 'a outcome" where
  "start f args s =
     (if freeWorkers s \<noteq> [] then
        let worker = last (freeWorkers s);
            s1 = s\<lparr> freeWorkers := butlast (freeWorkers s),
                    onmessage := (onmessage s)(worker := Some f),
                    onerror := (onerror s)(worker := Some f) \<rparr>
        in if clonable args
           then (None, s1\<lparr> trace := trace s1 @ [PostMessage worker f args] \<rparr>)
           else (Some DataCloneError, s1\<lparr> trace := trace s1 @ [PostMessageThrew worker f args] \<rparr>)
      else (None, s\<lparr> queue := queue s @ [(f, args)] \<rparr>))"

text \<open>Lines 69 to 76; \<open>queue.shift()\<close> removes the head before \<open>start\<close> runs. What
  \<open>start\<close> throws leaves \<open>onFinish\<close>.\<close>

definition onFinish :: "worker \<Rightarrow> 'a pool \<Rightarrow> 'a outcome" where
  "onFinish worker s =
     (let s1 = s\<lparr> onmessage := (onmessage s)(worker := None),
                  onerror := (onerror s)(worker := None),
                  freeWorkers := freeWorkers s @ [worker] \<rparr>
      in case queue s1 of
           [] \<Rightarrow> (None, s1)
         | (f, args) # rest \<Rightarrow> start f args (s1\<lparr> queue := rest \<rparr>))"

text \<open>The closures of lines 80 to 87, for the worker and the promise they capture. When
  \<open>onFinish\<close> throws, the line after it does not run.\<close>

definition message_handler :: "worker \<Rightarrow> future \<Rightarrow> 'a \<Rightarrow> 'a pool \<Rightarrow> 'a outcome" where
  "message_handler worker f d s =
     (case onFinish worker s of
        (None, s1) \<Rightarrow> (None, resolve f d s1)
      | (Some x, s1) \<Rightarrow> (Some x, s1))"

definition error_handler :: "worker \<Rightarrow> future \<Rightarrow> 'a jserror \<Rightarrow> 'a pool \<Rightarrow> 'a outcome" where
  "error_handler worker f e s =
     (case onFinish worker s of
        (None, s1) \<Rightarrow> (None, reject f e s1)
      | (Some x, s1) \<Rightarrow> (Some x, s1))"

subsection \<open>dispatch and dispose\<close>

text \<open>Lines 29 to 31: the executor of the new promise runs at once, and what it throws
  rejects the promise; the promise is returned with the new state.\<close>

definition dispatch :: "'a jsvalue list \<Rightarrow> 'a pool \<Rightarrow> future \<times> 'a pool" where
  "dispatch args s =
     (let f = promises s in
      case start f args (s\<lparr> promises := Suc f \<rparr>) of
        (None, s1) \<Rightarrow> (f, s1)
      | (Some x, s1) \<Rightarrow> (f, reject f x s1))"

definition disposed :: "'a jserror" where
  "disposed = TypeError ''threadpool disposed''"

text \<open>Lines 37 to 40.\<close>

definition dispose_free :: "'a pool \<Rightarrow> 'a pool" where
  "dispose_free s =
     fold (\<lambda>x t. terminate x (t\<lparr> workers := removeAll x (workers t) \<rparr>)) (freeWorkers s) s"

text \<open>Lines 41 and 42.\<close>

definition dispose_queue :: "'a pool \<Rightarrow> 'a pool" where
  "dispose_queue s = (fold (\<lambda>(f, args) t. reject f disposed t) (queue s) s)\<lparr> queue := [] \<rparr>"

text \<open>Lines 43 to 46, over the workers still in the Set. Calling a slot that holds
  \<open>null\<close> throws a \<open>TypeError\<close>; that, or what the handler throws, ends \<open>dispose\<close>.\<close>

fun dispose_busy :: "worker list \<Rightarrow> 'a pool \<Rightarrow> 'a jserror + 'a pool" where
  "dispose_busy [] s = Inr s"
| "dispose_busy (x # xs) s =
     (let s1 = terminate x s in
      case onerror s1 x of
        None \<Rightarrow> Inl (TypeError ''x.onerror is not a function'')
      | Some f \<Rightarrow>
          (case error_handler x f disposed s1 of
             (None, s2) \<Rightarrow> dispose_busy xs s2
           | (Some e, s2) \<Rightarrow> Inl e))"

text \<open>Lines 36 to 49.\<close>

definition dispose :: "'a pool \<Rightarrow> 'a jserror + 'a pool" where
  "dispose s =
     (let s2 = dispose_queue (dispose_free s) in
      case dispose_busy (workers s2) s2 of
        Inl e \<Rightarrow> Inl e
      | Inr s3 \<Rightarrow> Inr (s3\<lparr> workers := [], freeWorkers := [] \<rparr>))"

subsection \<open>What the surroundings do to a pool\<close>

text \<open>
  A caller dispatches; a worker that has finished a call fires its \<open>message\<close> event, one
  whose function threw fires its \<open>error\<close> event. An event on a slot that holds \<open>null\<close>
  runs nothing. What a handler throws goes to the event loop; the pool stays as the
  handler left it. A worker fires only after a message has been sent to it; a step does not
  ask for that, so the sequences of steps include all that can happen.
\<close>

datatype 'a op =
  Dispatch "'a jsvalue list" | WorkerMessage worker 'a | WorkerError worker "'a jserror"

fun exec :: "'a op \<Rightarrow> 'a pool \<Rightarrow> 'a pool" where
  "exec (Dispatch args) s = snd (dispatch args s)"
| "exec (WorkerMessage w d) s =
     (case onmessage s w of None \<Rightarrow> s | Some f \<Rightarrow> snd (message_handler w f d s))"
| "exec (WorkerError w e) s =
     (case onerror s w of None \<Rightarrow> s | Some f \<Rightarrow> snd (error_handler w f e s))"

definition run :: "'a op list \<Rightarrow> 'a pool \<Rightarrow> 'a pool" where
  "run ops s = fold exec ops s"

subsection \<open>Reading a trace\<close>

text \<open>The promises of the calls posted, the rejections and the resolutions, each in the
  order of the trace.\<close>

fun posted :: "'a event list \<Rightarrow> future list" where
  "posted [] = []"
| "posted (PostMessage w f args # es) = f # posted es"
| "posted (e # es) = posted es"

fun rejections :: "'a event list \<Rightarrow> (future \<times> 'a jserror) list" where
  "rejections [] = []"
| "rejections (Reject f e # es) = (f, e) # rejections es"
| "rejections (e # es) = rejections es"

fun resolutions :: "'a event list \<Rightarrow> (future \<times> 'a) list" where
  "resolutions [] = []"
| "resolutions (Resolve f v # es) = (f, v) # resolutions es"
| "resolutions (e # es) = resolutions es"

text \<open>The promises of the calls handed to a worker at line 88, whether \<open>postMessage\<close>
  sent them or threw, in the order of the trace.\<close>

fun taken :: "'a event list \<Rightarrow> future list" where
  "taken [] = []"
| "taken (PostMessage w f args # es) = f # taken es"
| "taken (PostMessageThrew w f args # es) = f # taken es"
| "taken (e # es) = taken es"

text \<open>The promises that some event of the trace settles.\<close>

definition settled :: "'a event list \<Rightarrow> future set" where
  "settled es = fst ` set (rejections es) \<union> fst ` set (resolutions es)"

text \<open>The promises captured by the handlers on the workers of the pool, in the order of
  the Set: those of the calls in flight and, where \<open>postMessage\<close> threw, the one the
  worker was left bound to.\<close>

definition inflight :: "'a pool \<Rightarrow> future list" where
  "inflight s = List.map_filter (onerror s) (workers s)"

definition outstanding :: "'a pool \<Rightarrow> future list" where
  "outstanding s = map fst (queue s) @ inflight s"

subsection \<open>Invariants\<close>

text \<open>How the containers and the handler slots hang together between two operations:
  the Set and the stack hold no worker twice, the free workers are workers of the pool, both
  slots of a worker hold closures for the same promise, exactly the workers of the pool that
  are not free carry handlers, and nothing waits while a worker is free.\<close>

definition pool_inv :: "'a pool \<Rightarrow> bool" where
  "pool_inv s \<longleftrightarrow>
     distinct (workers s) \<and> distinct (freeWorkers s) \<and>
     set (freeWorkers s) \<subseteq> set (workers s) \<and>
     onmessage s = onerror s \<and>
     dom (onerror s) = set (workers s) - set (freeWorkers s) \<and>
     (queue s \<noteq> [] \<longrightarrow> freeWorkers s = [])"

text \<open>How the promises hang together: promises are handed to workers in the order they
  were made, those not yet handed over wait in the queue in that order, a promise captured
  by a handler has been handed to a worker and, if its message was sent, is not settled, no
  two workers hold the same promise, and only promises handed to a worker have been settled.\<close>

definition futures_inv :: "'a pool \<Rightarrow> bool" where
  "futures_inv s \<longleftrightarrow>
     taken (trace s) @ map fst (queue s) = [0..<promises s] \<and>
     (\<forall>w f. onerror s w = Some f \<longrightarrow>
        f \<in> set (taken (trace s)) \<and> (f \<in> set (posted (trace s)) \<longrightarrow> f \<notin> settled (trace s))) \<and>
     (\<forall>w w' f. onerror s w = Some f \<longrightarrow> onerror s w' = Some f \<longrightarrow> w = w') \<and>
     settled (trace s) \<subseteq> set (taken (trace s))"

text \<open>A pool whose workers are gone: nothing is free and no handler is attached.\<close>

definition dead :: "'a pool \<Rightarrow> bool" where
  "dead s \<longleftrightarrow> freeWorkers s = [] \<and> onmessage s = (\<lambda>w. None) \<and> onerror s = (\<lambda>w. None)"

subsection \<open>What dispose adds to the trace\<close>

text \<open>The workers of the Set that are not in \<open>freeWorkers\<close>, in the order of the Set: the
  ones the third loop of \<open>dispose\<close> visits.\<close>

definition busy :: "'a pool \<Rightarrow> worker list" where
  "busy s = filter (\<lambda>w. w \<notin> set (freeWorkers s)) (workers s)"

text \<open>The events of the three loops, one after the other.\<close>

definition dispose_events :: "'a pool \<Rightarrow> 'a event list" where
  "dispose_events s =
     map Terminate (freeWorkers s)
     @ map (\<lambda>(f, args). Reject f disposed) (queue s)
     @ concat (map (\<lambda>x. case onerror s x of None \<Rightarrow> [Terminate x]
                                        | Some f \<Rightarrow> [Terminate x, Reject f disposed]) (busy s))"

subsection \<open>The specification's notion of a valid size\<close>

text \<open>What the specification calls a positive integer, among the numbers.\<close>

fun positive_integer :: "number \<Rightarrow> bool" where
  "positive_integer (Finite q) = (0 < q \<and> of_int \<lfloor>q\<rfloor> = q)"
| "positive_integer NaN = False"
| "positive_integer PosInfinity = False"
| "positive_integer NegInfinity = False"

subsection \<open>Pools to compute with\<close>

text \<open>The pool that \<open>new ThreadPool(fn, 2)\<close> builds, and that pool after \<open>dispose\<close>.\<close>

definition pool_of_two :: "int pool" where
  "pool_of_two =
     \<lparr> queue = [], freeWorkers = [0, 1], workers = [0, 1],
       onmessage = (\<lambda>w. None), onerror = (\<lambda>w. None), trace = [], promises = 0 \<rparr>"

definition disposed_pool_of_two :: "int pool" where
  "disposed_pool_of_two =
     \<lparr> queue = [], freeWorkers = [], workers = [],
       onmessage = (\<lambda>w. None), onerror = (\<lambda>w. None),
       trace = [Terminate 0, Terminate 1], promises = 0 \<rparr>"

text \<open>The pool that \<open>new ThreadPool(fn, 1)\<close> builds.\<close>

definition pool_of_one :: "int pool" where
  "pool_of_one =
     \<lparr> queue = [], freeWorkers = [0], workers = [0],
       onmessage = (\<lambda>w. None), onerror = (\<lambda>w. None), trace = [], promises = 0 \<rparr>"

text \<open>Three dispatches on two workers: two calls run and one waits.\<close>

definition waiting_pool :: "int pool" where
  "waiting_pool = run [Dispatch [Plain 1], Dispatch [Plain 2], Dispatch [Plain 3]] pool_of_two"

text \<open>One worker: a call runs, and behind it waits a call with an argument that cannot be
  cloned.\<close>

definition blocked_pool :: "int pool" where
  "blocked_pool = run [Dispatch [Plain 1], Dispatch [Unclonable]] pool_of_one"

text \<open>That pool after the worker has answered the first call.\<close>

definition wedged_pool :: "int pool" where
  "wedged_pool = run [Dispatch [Plain 1], Dispatch [Unclonable], WorkerMessage 0 9] pool_of_one"


text \<open>Two dispatches, then worker 1 answers: worker 0 still runs, worker 1 is free.\<close>

definition freed_pool :: "int pool" where
  "freed_pool = run [Dispatch [Plain 1], Dispatch [Plain 2], WorkerMessage 1 5] pool_of_two"

section \<open>Invariants of the pool\<close>

subsection \<open>Traces and single steps\<close>

lemma posted_append: "posted (xs @ ys) = posted xs @ posted ys"
  by (induction xs rule: posted.induct) simp_all

lemma taken_append: "taken (xs @ ys) = taken xs @ taken ys"
  by (induction xs rule: taken.induct) simp_all

lemma rejections_append: "rejections (xs @ ys) = rejections xs @ rejections ys"
  by (induction xs rule: rejections.induct) simp_all

lemma resolutions_append: "resolutions (xs @ ys) = resolutions xs @ resolutions ys"
  by (induction xs rule: resolutions.induct) simp_all

lemma settled_append: "settled (xs @ ys) = settled xs \<union> settled ys"
  by (auto simp: settled_def rejections_append resolutions_append)

lemma settled_simps [simp]:
  "settled [] = {}"
  "settled (PostMessage w f args # es) = settled es"
  "settled (PostMessageThrew w f args # es) = settled es"
  "settled (Terminate w # es) = settled es"
  "settled (Resolve f v # es) = insert f (settled es)"
  "settled (Reject f e # es) = insert f (settled es)"
  by (simp_all add: settled_def)

lemma posted_subset_taken: "set (posted es) \<subseteq> set (taken es)"
  by (induction es rule: taken.induct) auto

lemma start_post:
  "freeWorkers s \<noteq> [] \<Longrightarrow> clonable args \<Longrightarrow>
   start f args s =
     (None,
      s\<lparr> freeWorkers := butlast (freeWorkers s),
         onmessage := (onmessage s)(last (freeWorkers s) := Some f),
         onerror := (onerror s)(last (freeWorkers s) := Some f),
         trace := trace s @ [PostMessage (last (freeWorkers s)) f args] \<rparr>)"
  by (simp add: start_def Let_def)

lemma start_throw:
  "freeWorkers s \<noteq> [] \<Longrightarrow> \<not> clonable args \<Longrightarrow>
   start f args s =
     (Some DataCloneError,
      s\<lparr> freeWorkers := butlast (freeWorkers s),
         onmessage := (onmessage s)(last (freeWorkers s) := Some f),
         onerror := (onerror s)(last (freeWorkers s) := Some f),
         trace := trace s @ [PostMessageThrew (last (freeWorkers s)) f args] \<rparr>)"
  by (simp add: start_def Let_def)

lemma start_busy:
  "freeWorkers s = [] \<Longrightarrow> start f args s = (None, s\<lparr> queue := queue s @ [(f, args)] \<rparr>)"
  by (simp add: start_def)

lemma onFinish_idle:
  "queue s = [] \<Longrightarrow>
   onFinish w s =
     (None,
      s\<lparr> onmessage := (onmessage s)(w := None),
         onerror := (onerror s)(w := None),
         freeWorkers := freeWorkers s @ [w] \<rparr>)"
  by (simp add: onFinish_def Let_def)

lemma onFinish_post:
  "queue s = (f, args) # rest \<Longrightarrow> clonable args \<Longrightarrow>
   onFinish w s =
     (None,
      s\<lparr> queue := rest,
         onmessage := (onmessage s)(w := Some f),
         onerror := (onerror s)(w := Some f),
         trace := trace s @ [PostMessage w f args] \<rparr>)"
  by (simp add: onFinish_def Let_def start_def)

lemma onFinish_throw:
  "queue s = (f, args) # rest \<Longrightarrow> \<not> clonable args \<Longrightarrow>
   onFinish w s =
     (Some DataCloneError,
      s\<lparr> queue := rest,
         onmessage := (onmessage s)(w := Some f),
         onerror := (onerror s)(w := Some f),
         trace := trace s @ [PostMessageThrew w f args] \<rparr>)"
  by (simp add: onFinish_def Let_def start_def)

subsection \<open>Steps as equations\<close>

lemma exec_dispatch_busy:
  "freeWorkers s = [] \<Longrightarrow>
   exec (Dispatch args) s =
     s\<lparr> queue := queue s @ [(promises s, args)], promises := Suc (promises s) \<rparr>"
  by (simp add: dispatch_def Let_def start_busy)

lemma exec_dispatch_post:
  "freeWorkers s \<noteq> [] \<Longrightarrow> clonable args \<Longrightarrow>
   exec (Dispatch args) s =
     s\<lparr> promises := Suc (promises s),
        freeWorkers := butlast (freeWorkers s),
        onmessage := (onmessage s)(last (freeWorkers s) := Some (promises s)),
        onerror := (onerror s)(last (freeWorkers s) := Some (promises s)),
        trace := trace s @ [PostMessage (last (freeWorkers s)) (promises s) args] \<rparr>"
  by (simp add: dispatch_def Let_def start_post)

lemma exec_dispatch_throw:
  "freeWorkers s \<noteq> [] \<Longrightarrow> \<not> clonable args \<Longrightarrow>
   exec (Dispatch args) s =
     s\<lparr> promises := Suc (promises s),
        freeWorkers := butlast (freeWorkers s),
        onmessage := (onmessage s)(last (freeWorkers s) := Some (promises s)),
        onerror := (onerror s)(last (freeWorkers s) := Some (promises s)),
        trace := trace s @ [PostMessageThrew (last (freeWorkers s)) (promises s) args,
                            Reject (promises s) DataCloneError] \<rparr>"
  by (simp add: dispatch_def Let_def start_throw reject_def)

lemma exec_message_idle:
  "onmessage s w = Some f \<Longrightarrow> queue s = [] \<Longrightarrow>
   exec (WorkerMessage w d) s =
     s\<lparr> onmessage := (onmessage s)(w := None), onerror := (onerror s)(w := None),
        freeWorkers := freeWorkers s @ [w],
        trace := trace s @ [Resolve f d] \<rparr>"
  by (simp add: message_handler_def resolve_def onFinish_idle)

lemma exec_error_idle:
  "onerror s w = Some f \<Longrightarrow> queue s = [] \<Longrightarrow>
   exec (WorkerError w e) s =
     s\<lparr> onmessage := (onmessage s)(w := None), onerror := (onerror s)(w := None),
        freeWorkers := freeWorkers s @ [w],
        trace := trace s @ [Reject f e] \<rparr>"
  by (simp add: error_handler_def reject_def onFinish_idle)

lemma exec_message_post:
  "onmessage s w = Some f \<Longrightarrow> queue s = (g, args) # rest \<Longrightarrow> clonable args \<Longrightarrow>
   exec (WorkerMessage w d) s =
     s\<lparr> queue := rest, onmessage := (onmessage s)(w := Some g),
        onerror := (onerror s)(w := Some g),
        trace := trace s @ [PostMessage w g args, Resolve f d] \<rparr>"
  by (simp add: message_handler_def resolve_def onFinish_post)

lemma exec_error_post:
  "onerror s w = Some f \<Longrightarrow> queue s = (g, args) # rest \<Longrightarrow> clonable args \<Longrightarrow>
   exec (WorkerError w e) s =
     s\<lparr> queue := rest, onmessage := (onmessage s)(w := Some g),
        onerror := (onerror s)(w := Some g),
        trace := trace s @ [PostMessage w g args, Reject f e] \<rparr>"
  by (simp add: error_handler_def reject_def onFinish_post)

text \<open>When the head of the queue cannot be cloned, a handler ends at line 81 or 85: the
  finished call is not settled.\<close>

lemma exec_message_throw:
  "onmessage s w = Some f \<Longrightarrow> queue s = (g, args) # rest \<Longrightarrow> \<not> clonable args \<Longrightarrow>
   exec (WorkerMessage w d) s =
     s\<lparr> queue := rest, onmessage := (onmessage s)(w := Some g),
        onerror := (onerror s)(w := Some g),
        trace := trace s @ [PostMessageThrew w g args] \<rparr>"
  by (simp add: message_handler_def onFinish_throw)

lemma exec_error_throw:
  "onerror s w = Some f \<Longrightarrow> queue s = (g, args) # rest \<Longrightarrow> \<not> clonable args \<Longrightarrow>
   exec (WorkerError w e) s =
     s\<lparr> queue := rest, onmessage := (onmessage s)(w := Some g),
        onerror := (onerror s)(w := Some g),
        trace := trace s @ [PostMessageThrew w g args] \<rparr>"
  by (simp add: error_handler_def onFinish_throw)

lemma exec_message_null: "onmessage s w = None \<Longrightarrow> exec (WorkerMessage w d) s = s"
  by simp

lemma exec_error_null: "onerror s w = None \<Longrightarrow> exec (WorkerError w e) s = s"
  by simp

lemma run_snoc: "run (ops @ [op]) s = exec op (run ops s)"
  by (simp add: run_def)

text \<open>From here on a step is rewritten by the equations above, not by the definition of
  \<open>exec\<close>.\<close>

declare exec.simps [simp del]

subsection \<open>The invariants hold in every reachable state\<close>

lemma construct_inv:
  "construct fn sz = Inr p \<Longrightarrow> pool_inv p \<and> futures_inv p"
  by (auto simp: construct_def Let_def pool_inv_def futures_inv_def split: if_splits)

lemma futures_inv_distinct:
  "futures_inv s \<Longrightarrow> distinct (taken (trace s) @ map fst (queue s))"
  by (simp add: futures_inv_def del: distinct_append)

lemma pool_inv_busy:
  "pool_inv s \<Longrightarrow> onerror s w = Some f \<Longrightarrow>
   w \<notin> set (freeWorkers s) \<and> w \<in> set (workers s) \<and> onmessage s w = Some f"
  by (auto simp: pool_inv_def dest: domI)

lemma exec_dispatch_pool_inv:
  assumes "pool_inv s"
  shows "pool_inv (exec (Dispatch args) s)"
proof (cases "freeWorkers s = []")
  case True
  with assms show ?thesis
    by (simp add: exec_dispatch_busy pool_inv_def)
next
  case False
  then obtain ys y where fw: "freeWorkers s = ys @ [y]"
    by (metis rev_exhaust)
  show ?thesis
  proof (cases "clonable args")
    case True
    with fw assms show ?thesis
      by (auto simp: exec_dispatch_post pool_inv_def)
  next
    case False
    with fw assms show ?thesis
      by (auto simp: exec_dispatch_throw pool_inv_def)
  qed
qed

text \<open>A handler leaves the containers and the slots in one of two shapes, whatever it
  does to the trace.\<close>

lemma pool_inv_idle:
  assumes "pool_inv s" and "onerror s w = Some f" and "queue s = []"
  shows "pool_inv (s\<lparr> onmessage := (onmessage s)(w := None), onerror := (onerror s)(w := None),
        freeWorkers := freeWorkers s @ [w], trace := tr \<rparr>)"
  using assms pool_inv_busy [OF assms(1,2)]
  by (auto simp: pool_inv_def)

lemma pool_inv_rebound:
  assumes "pool_inv s" and "onerror s w = Some f" and "queue s = (g, args) # rest"
  shows "pool_inv (s\<lparr> queue := rest, onmessage := (onmessage s)(w := Some g),
        onerror := (onerror s)(w := Some g), trace := tr \<rparr>)"
  using assms pool_inv_busy [OF assms(1,2)]
  by (auto simp: pool_inv_def)

lemma exec_message_pool_inv:
  assumes "pool_inv s"
  shows "pool_inv (exec (WorkerMessage w d) s)"
proof (cases "onerror s w")
  case None
  with assms have "onmessage s w = None" by (simp add: pool_inv_def)
  with assms show ?thesis by (simp add: exec_message_null)
next
  case (Some f)
  with assms have m: "onmessage s w = Some f" by (simp add: pool_inv_busy)
  show ?thesis
  proof (cases "queue s")
    case Nil
    show ?thesis
      unfolding exec_message_idle [OF m Nil] using assms Some Nil by (rule pool_inv_idle)
  next
    case (Cons c rest)
    obtain g args where q: "queue s = (g, args) # rest"
      using Cons by (cases c) simp
    show ?thesis
    proof (cases "clonable args")
      case True
      show ?thesis
        unfolding exec_message_post [OF m q True] using assms Some q by (rule pool_inv_rebound)
    next
      case False
      show ?thesis
        unfolding exec_message_throw [OF m q False] using assms Some q by (rule pool_inv_rebound)
    qed
  qed
qed

lemma exec_error_pool_inv:
  assumes "pool_inv s"
  shows "pool_inv (exec (WorkerError w e) s)"
proof (cases "onerror s w")
  case None
  with assms show ?thesis by (simp add: exec_error_null)
next
  case (Some f)
  show ?thesis
  proof (cases "queue s")
    case Nil
    show ?thesis
      unfolding exec_error_idle [OF Some Nil] using assms Some Nil by (rule pool_inv_idle)
  next
    case (Cons c rest)
    obtain g args where q: "queue s = (g, args) # rest"
      using Cons by (cases c) simp
    show ?thesis
    proof (cases "clonable args")
      case True
      show ?thesis
        unfolding exec_error_post [OF Some q True] using assms Some q by (rule pool_inv_rebound)
    next
      case False
      show ?thesis
        unfolding exec_error_throw [OF Some q False] using assms Some q by (rule pool_inv_rebound)
    qed
  qed
qed

lemma exec_pool_inv: "pool_inv s \<Longrightarrow> pool_inv (exec op s)"
  by (cases op) (simp_all add: exec_dispatch_pool_inv exec_message_pool_inv exec_error_pool_inv)

lemma exec_dispatch_futures_inv:
  assumes "pool_inv s" and "futures_inv s"
  shows "futures_inv (exec (Dispatch args) s)"
proof (cases "freeWorkers s = []")
  case True
  with assms(2) show ?thesis
    by (simp add: exec_dispatch_busy futures_inv_def)
next
  case False
  with assms(1) have q: "queue s = []"
    by (auto simp: pool_inv_def)
  with assms(2) have p: "taken (trace s) = [0..<promises s]"
    by (simp add: futures_inv_def)
  from assms(2) have st: "settled (trace s) \<subseteq> set (taken (trace s))"
    by (simp add: futures_inv_def)
  have fresh: "promises s \<notin> set (taken (trace s))" "promises s \<notin> settled (trace s)"
    "promises s \<notin> set (posted (trace s))"
    using p st posted_subset_taken [of "trace s"] by auto
  from assms(2) have h: "\<And>w f. onerror s w = Some f \<Longrightarrow>
        f \<in> set (taken (trace s)) \<and> (f \<in> set (posted (trace s)) \<longrightarrow> f \<notin> settled (trace s))"
    and inj: "\<And>w w' f. onerror s w = Some f \<Longrightarrow> onerror s w' = Some f \<Longrightarrow> w = w'"
    by (auto simp: futures_inv_def)
  show ?thesis
  proof (cases "clonable args")
    case True
    show ?thesis
      unfolding futures_inv_def exec_dispatch_post [OF False True]
      using q p st fresh h inj
      by (auto simp: posted_append taken_append settled_append)
  next
    case c: False
    show ?thesis
      unfolding futures_inv_def exec_dispatch_throw [OF False c]
      using q p st fresh h inj
      by (auto simp: posted_append taken_append settled_append)
  qed
qed

text \<open>The three ways a handler for promise \<open>f\<close> on worker \<open>w\<close> can end.\<close>

lemma futures_inv_idle:
  assumes "futures_inv s" and "onerror s w = Some f" and "queue s = []"
    and "settled [ev] = {f}" and "posted [ev] = []" and "taken [ev] = []"
  shows "futures_inv (s\<lparr> onmessage := m, onerror := (onerror s)(w := None),
        freeWorkers := fw, trace := trace s @ [ev] \<rparr>)"
proof -
  from assms(1) have st: "settled (trace s) \<subseteq> set (taken (trace s))"
    and all: "taken (trace s) @ map fst (queue s) = [0..<promises s]"
    and h: "\<And>w f. onerror s w = Some f \<Longrightarrow>
        f \<in> set (taken (trace s)) \<and> (f \<in> set (posted (trace s)) \<longrightarrow> f \<notin> settled (trace s))"
    and inj: "\<And>w w' f. onerror s w = Some f \<Longrightarrow> onerror s w' = Some f \<Longrightarrow> w = w'"
    by (auto simp: futures_inv_def)
  show ?thesis
    unfolding futures_inv_def
    using all st h inj assms(2-6)
    by (auto simp: posted_append taken_append settled_append)
qed

lemma futures_inv_post:
  assumes "futures_inv s" and "onerror s w = Some f" and "queue s = (g, args) # rest"
    and "settled [ev] = {f}" and "posted [ev] = []" and "taken [ev] = []"
  shows "futures_inv (s\<lparr> queue := rest, onmessage := m, onerror := (onerror s)(w := Some g),
        trace := trace s @ [PostMessage w g args, ev] \<rparr>)"
proof -
  from assms(1) have st: "settled (trace s) \<subseteq> set (taken (trace s))"
    and all: "taken (trace s) @ map fst (queue s) = [0..<promises s]"
    and h: "\<And>w f. onerror s w = Some f \<Longrightarrow>
        f \<in> set (taken (trace s)) \<and> (f \<in> set (posted (trace s)) \<longrightarrow> f \<notin> settled (trace s))"
    and inj: "\<And>w w' f. onerror s w = Some f \<Longrightarrow> onerror s w' = Some f \<Longrightarrow> w = w'"
    by (auto simp: futures_inv_def)
  from futures_inv_distinct [OF assms(1)] assms(3) have g: "g \<notin> set (taken (trace s))"
    by auto
  with st posted_subset_taken [of "trace s"]
  have g': "g \<notin> settled (trace s)" "g \<notin> set (posted (trace s))" by auto
  from g h assms(2) have gf: "g \<noteq> f" by auto
  have ev: "settled [PostMessage w g args, ev] = {f}" "posted [PostMessage w g args, ev] = [g]"
    "taken [PostMessage w g args, ev] = [g]"
    using assms(4-6) by simp_all
  show ?thesis
    unfolding futures_inv_def
    using all st h inj assms(2,3) g g' gf ev
    by (auto simp: posted_append taken_append settled_append)
qed

lemma futures_inv_throw:
  assumes "futures_inv s" and "onerror s w = Some f" and "queue s = (g, args) # rest"
  shows "futures_inv (s\<lparr> queue := rest, onmessage := m, onerror := (onerror s)(w := Some g),
        trace := trace s @ [PostMessageThrew w g args] \<rparr>)"
proof -
  from assms(1) have st: "settled (trace s) \<subseteq> set (taken (trace s))"
    and all: "taken (trace s) @ map fst (queue s) = [0..<promises s]"
    and h: "\<And>w f. onerror s w = Some f \<Longrightarrow>
        f \<in> set (taken (trace s)) \<and> (f \<in> set (posted (trace s)) \<longrightarrow> f \<notin> settled (trace s))"
    and inj: "\<And>w w' f. onerror s w = Some f \<Longrightarrow> onerror s w' = Some f \<Longrightarrow> w = w'"
    by (auto simp: futures_inv_def)
  from futures_inv_distinct [OF assms(1)] assms(3) have g: "g \<notin> set (taken (trace s))"
    by auto
  with st posted_subset_taken [of "trace s"]
  have g': "g \<notin> settled (trace s)" "g \<notin> set (posted (trace s))" by auto
  show ?thesis
    unfolding futures_inv_def
    using all st h inj assms(2,3) g g'
    by (auto simp: posted_append taken_append settled_append)
qed

lemma exec_message_futures_inv:
  assumes "pool_inv s" and "futures_inv s"
  shows "futures_inv (exec (WorkerMessage w d) s)"
proof (cases "onerror s w")
  case None
  with assms have "onmessage s w = None" by (simp add: pool_inv_def)
  with assms show ?thesis by (simp add: exec_message_null)
next
  case (Some f)
  with assms have m: "onmessage s w = Some f" by (simp add: pool_inv_busy)
  show ?thesis
  proof (cases "queue s")
    case Nil
    show ?thesis
      unfolding exec_message_idle [OF m Nil]
      using assms(2) Some Nil by (rule futures_inv_idle) simp_all
  next
    case (Cons c rest)
    obtain g args where q: "queue s = (g, args) # rest"
      using Cons by (cases c) simp
    show ?thesis
    proof (cases "clonable args")
      case True
      show ?thesis
        unfolding exec_message_post [OF m q True]
        using assms(2) Some q by (rule futures_inv_post) simp_all
    next
      case False
      show ?thesis
        unfolding exec_message_throw [OF m q False]
        using assms(2) Some q by (rule futures_inv_throw)
    qed
  qed
qed

lemma exec_error_futures_inv:
  assumes "futures_inv s"
  shows "futures_inv (exec (WorkerError w e) s)"
proof (cases "onerror s w")
  case None
  with assms show ?thesis by (simp add: exec_error_null)
next
  case (Some f)
  show ?thesis
  proof (cases "queue s")
    case Nil
    show ?thesis
      unfolding exec_error_idle [OF Some Nil]
      using assms Some Nil by (rule futures_inv_idle) simp_all
  next
    case (Cons c rest)
    obtain g args where q: "queue s = (g, args) # rest"
      using Cons by (cases c) simp
    show ?thesis
    proof (cases "clonable args")
      case True
      show ?thesis
        unfolding exec_error_post [OF Some q True]
        using assms Some q by (rule futures_inv_post) simp_all
    next
      case False
      show ?thesis
        unfolding exec_error_throw [OF Some q False]
        using assms Some q by (rule futures_inv_throw)
    qed
  qed
qed

lemma exec_inv:
  assumes "pool_inv s" and "futures_inv s"
  shows "pool_inv (exec op s) \<and> futures_inv (exec op s)"
  using assms
  by (cases op)
     (simp_all add: exec_pool_inv exec_dispatch_futures_inv exec_message_futures_inv
        exec_error_futures_inv)

lemma run_inv:
  "pool_inv s \<Longrightarrow> futures_inv s \<Longrightarrow> pool_inv (run ops s) \<and> futures_inv (run ops s)"
  unfolding run_def
  by (induction ops arbitrary: s) (simp_all add: exec_inv)

lemma run_construct_inv:
  "construct fn sz = Inr p \<Longrightarrow> pool_inv (run ops p) \<and> futures_inv (run ops p)"
  using construct_inv run_inv by blast

lemma exec_workers [simp]: "workers (exec op s) = workers s"
proof (cases op)
  case (Dispatch args)
  then show ?thesis
    by (simp add: exec.simps dispatch_def start_def Let_def reject_def split: prod.split option.split)
next
  case (WorkerMessage w d)
  then show ?thesis
    by (simp add: exec.simps message_handler_def onFinish_def start_def Let_def resolve_def
        split: prod.split option.split list.split)
next
  case (WorkerError w e)
  then show ?thesis
    by (simp add: exec.simps error_handler_def onFinish_def start_def Let_def reject_def
        split: prod.split option.split list.split)
qed

lemma run_workers [simp]: "workers (run ops s) = workers s"
  unfolding run_def by (induction ops arbitrary: s) simp_all

subsection \<open>dispose, loop by loop\<close>

lemma fold_dispose_free:
  "fold (\<lambda>x t. terminate x (t\<lparr> workers := removeAll x (workers t) \<rparr>)) xs t =
     t\<lparr> workers := filter (\<lambda>w. w \<notin> set xs) (workers t),
        trace := trace t @ map Terminate xs \<rparr>"
proof (induction xs arbitrary: t)
  case Nil
  show ?case by simp
next
  case (Cons x xs)
  have "filter (\<lambda>w. w \<notin> set xs) (removeAll x ys)
      = filter (\<lambda>w. w \<notin> set (x # xs)) ys" for ys
    by (induction ys) auto
  then show ?case
    by (simp add: Cons.IH) (simp add: terminate_def)
qed

lemma dispose_free_eq:
  "dispose_free s = s\<lparr> workers := busy s, trace := trace s @ map Terminate (freeWorkers s) \<rparr>"
  by (simp add: dispose_free_def fold_dispose_free busy_def)

lemma fold_dispose_queue:
  "fold (\<lambda>(f, args) t. reject f disposed t) q t =
     t\<lparr> trace := trace t @ map (\<lambda>(f, args). Reject f disposed) q \<rparr>"
  by (induction q arbitrary: t) (auto simp: reject_def)

lemma dispose_queue_eq:
  "dispose_queue s =
     s\<lparr> trace := trace s @ map (\<lambda>(f, args). Reject f disposed) (queue s), queue := [] \<rparr>"
  by (simp add: dispose_queue_def fold_dispose_queue)

lemma dispose_busy_step:
  "queue t = [] \<Longrightarrow> onerror t x = Some f \<Longrightarrow>
   dispose_busy (x # xs) t =
     dispose_busy xs
       (t\<lparr> onmessage := (onmessage t)(x := None), onerror := (onerror t)(x := None),
           freeWorkers := freeWorkers t @ [x],
           trace := trace t @ [Terminate x, Reject f disposed] \<rparr>)"
  by (simp add: terminate_def error_handler_def reject_def onFinish_idle)

text \<open>Whatever the state: while the loop over the busy workers runs the queue stays empty
  and nothing is posted.\<close>

lemma dispose_busy_any:
  "dispose_busy xs t = Inr t' \<Longrightarrow> queue t = [] \<Longrightarrow>
   queue t' = [] \<and> workers t' = workers t \<and> promises t' = promises t
   \<and> (\<exists>es. trace t' = trace t @ es \<and> posted es = [] \<and> resolutions es = [])"
proof (induction xs arbitrary: t)
  case Nil
  then show ?case by simp
next
  case (Cons x xs)
  from Cons.prems(1) obtain f where f: "onerror t x = Some f"
    by (cases "onerror t x") (auto simp: terminate_def)
  let ?u = "t\<lparr> onmessage := (onmessage t)(x := None), onerror := (onerror t)(x := None),
           freeWorkers := freeWorkers t @ [x],
           trace := trace t @ [Terminate x, Reject f disposed] \<rparr>"
  from Cons.prems(1) have "dispose_busy xs ?u = Inr t'"
    unfolding dispose_busy_step [OF Cons.prems(2) f] .
  from Cons.IH [OF this] Cons.prems(2)
  obtain es where "queue t' = []" "workers t' = workers t" "promises t' = promises t"
    "trace t' = (trace t @ [Terminate x, Reject f disposed]) @ es" "posted es = []" "resolutions es = []"
    by auto
  then show ?case
    by (auto simp: posted_append resolutions_append)
qed

lemma dispose_busy_ok:
  "queue t = [] \<Longrightarrow> distinct xs \<Longrightarrow> set xs \<subseteq> dom (onerror t) \<Longrightarrow>
   \<exists>t'. dispose_busy xs t = Inr t'
      \<and> freeWorkers t' = freeWorkers t @ xs
      \<and> onmessage t' = (\<lambda>w. if w \<in> set xs then None else onmessage t w)
      \<and> onerror t' = (\<lambda>w. if w \<in> set xs then None else onerror t w)
      \<and> trace t' = trace t @ concat (map (\<lambda>x. case onerror t x of None \<Rightarrow> [Terminate x]
                                        | Some f \<Rightarrow> [Terminate x, Reject f disposed]) xs)"
proof (induction xs arbitrary: t)
  case Nil
  then show ?case by simp
next
  case (Cons x xs)
  from Cons.prems(3) obtain f where f: "onerror t x = Some f"
    by auto
  let ?u = "t\<lparr> onmessage := (onmessage t)(x := None), onerror := (onerror t)(x := None),
           freeWorkers := freeWorkers t @ [x],
           trace := trace t @ [Terminate x, Reject f disposed] \<rparr>"
  have step: "dispose_busy (x # xs) t = dispose_busy xs ?u"
    using Cons.prems(1) f by (rule dispose_busy_step)
  have "queue ?u = []" "distinct xs" "set xs \<subseteq> dom (onerror ?u)"
    using Cons.prems by auto
  from Cons.IH [OF this] obtain t' where t': "dispose_busy xs ?u = Inr t'"
    "freeWorkers t' = freeWorkers ?u @ xs"
    "onmessage t' = (\<lambda>w. if w \<in> set xs then None else onmessage ?u w)"
    "onerror t' = (\<lambda>w. if w \<in> set xs then None else onerror ?u w)"
    "trace t' = trace ?u @ concat (map (\<lambda>x. case onerror ?u x of None \<Rightarrow> [Terminate x]
                                        | Some f \<Rightarrow> [Terminate x, Reject f disposed]) xs)"
    by blast
  have same: "map (\<lambda>y. case onerror ?u y of None \<Rightarrow> [Terminate y]
                                        | Some f \<Rightarrow> [Terminate y, Reject f disposed]) xs
        = map (\<lambda>y. case onerror t y of None \<Rightarrow> [Terminate y]
                                        | Some f \<Rightarrow> [Terminate y, Reject f disposed]) xs"
    using Cons.prems(2) by (intro map_cong) auto
  have tr: "trace t' = trace t @ concat (map (\<lambda>y. case onerror t y of None \<Rightarrow> [Terminate y]
                                        | Some f \<Rightarrow> [Terminate y, Reject f disposed]) (x # xs))"
    using t'(5) [unfolded same] f by simp
  show ?case
    unfolding step using t'(1-4) tr by (auto simp: fun_eq_iff)
qed


lemma busy_dom: "pool_inv s \<Longrightarrow> dom (onerror s) = set (busy s)"
  by (auto simp: pool_inv_def busy_def)

lemma dispose_unfold:
  "dispose s =
     (case dispose_busy (busy s)
             (s\<lparr> workers := busy s,
                 trace := trace s @ map Terminate (freeWorkers s)
                            @ map (\<lambda>(f, args). Reject f disposed) (queue s),
                 queue := [] \<rparr>) of
        Inl e \<Rightarrow> Inl e
      | Inr s3 \<Rightarrow> Inr (s3\<lparr> workers := [], freeWorkers := [] \<rparr>))"
  by (simp add: dispose_def dispose_queue_eq dispose_free_eq Let_def)

lemma dispose_any:
  assumes "dispose s = Inr s'"
  shows "queue s' = [] \<and> freeWorkers s' = [] \<and> workers s' = [] \<and> promises s' = promises s
     \<and> (\<exists>es. trace s' = trace s @ map Terminate (freeWorkers s)
                   @ map (\<lambda>(f, args). Reject f disposed) (queue s) @ es
             \<and> posted es = [] \<and> resolutions es = [])"
proof -
  let ?s2 = "s\<lparr> workers := busy s,
                 trace := trace s @ map Terminate (freeWorkers s)
                            @ map (\<lambda>(f, args). Reject f disposed) (queue s),
                 queue := [] \<rparr>"
  from assms obtain s3 where s3: "dispose_busy (busy s) ?s2 = Inr s3"
    and s': "s' = s3\<lparr> workers := [], freeWorkers := [] \<rparr>"
    unfolding dispose_unfold by (auto split: sum.splits)
  have "queue ?s2 = []" by simp
  from dispose_busy_any [OF s3 this] s' show ?thesis
    by auto
qed

lemma dispose_ok:
  assumes "pool_inv s"
  shows "\<exists>s'. dispose s = Inr s' \<and> queue s' = [] \<and> freeWorkers s' = [] \<and> workers s' = []
     \<and> onmessage s' = (\<lambda>w. None) \<and> onerror s' = (\<lambda>w. None) \<and> promises s' = promises s
     \<and> trace s' = trace s @ dispose_events s"
proof -
  let ?s2 = "s\<lparr> workers := busy s,
                 trace := trace s @ map Terminate (freeWorkers s)
                            @ map (\<lambda>(f, args). Reject f disposed) (queue s),
                 queue := [] \<rparr>"
  have "queue ?s2 = []" "distinct (busy s)" "set (busy s) \<subseteq> dom (onerror ?s2)"
    using assms busy_dom [OF assms] by (auto simp: busy_def pool_inv_def)
  from dispose_busy_ok [OF this] obtain t' where t': "dispose_busy (busy s) ?s2 = Inr t'"
      "onmessage t' = (\<lambda>w. if w \<in> set (busy s) then None else onmessage ?s2 w)"
      "onerror t' = (\<lambda>w. if w \<in> set (busy s) then None else onerror ?s2 w)"
      "trace t' = trace ?s2 @ concat (map (\<lambda>x. case onerror ?s2 x of None \<Rightarrow> [Terminate x]
                                        | Some f \<Rightarrow> [Terminate x, Reject f disposed]) (busy s))"
    by blast
  have none: "(\<lambda>w. if w \<in> set (busy s) then None else onerror s w) = (\<lambda>w. None)"
    using busy_dom [OF assms] by (auto simp: fun_eq_iff)
  from assms have same: "onmessage s = onerror s"
    by (simp add: pool_inv_def)
  have d: "dispose s = Inr (t'\<lparr> workers := [], freeWorkers := [] \<rparr>)"
    unfolding dispose_unfold t'(1) by simp
  have "dispose (s) = Inr (t'\<lparr> workers := [], freeWorkers := [] \<rparr>) \<Longrightarrow> queue t' = [] \<and> promises t' = promises s"
    using dispose_any [of s] by auto
  with d have qp: "queue t' = []" "promises t' = promises s" by auto
  show ?thesis
    using d t'(2-4) none same qp by (simp add: dispose_events_def cong: if_cong)
qed

lemma dispose_twice:
  assumes "dispose s = Inr s'"
  shows "dispose s' = Inr s'"
proof -
  from dispose_any [OF assms] have e: "queue s' = []" "freeWorkers s' = []" "workers s' = []"
    by auto
  then have b: "busy s' = []" by (simp add: busy_def)
  have "s'\<lparr> workers := [], trace := trace s', queue := [] \<rparr> = s'"
    using e by (cases s') simp
  then show ?thesis
    unfolding dispose_unfold using e b by simp
qed


subsection \<open>What dispose rejects\<close>

lemma rejections_Terminate: "rejections (map Terminate xs) = []"
  by (induction xs) simp_all

lemma resolutions_Terminate: "resolutions (map Terminate xs) = []"
  by (induction xs) simp_all

lemma rejections_queue:
  "rejections (map (\<lambda>(f, args). Reject f e) q) = map (\<lambda>f. (f, e)) (map fst q)"
  by (induction q) auto

lemma resolutions_queue: "resolutions (map (\<lambda>(f, args). Reject f e) q) = []"
  by (induction q) auto

lemma rejections_busy:
  "rejections (concat (map (\<lambda>x. case g x of None \<Rightarrow> [Terminate x]
                                   | Some f \<Rightarrow> [Terminate x, Reject f e]) xs))
   = map (\<lambda>f. (f, e)) (List.map_filter g xs)"
  by (induction xs) (auto simp: map_filter_simps split: option.split)

lemma resolutions_busy:
  "resolutions (concat (map (\<lambda>x. case g x of None \<Rightarrow> [Terminate x]
                                   | Some f \<Rightarrow> [Terminate x, Reject f e]) xs)) = []"
  by (induction xs) (auto split: option.split)

lemma map_filter_filter:
  "(\<And>x. x \<in> set xs \<Longrightarrow> \<not> P x \<Longrightarrow> g x = None) \<Longrightarrow>
   List.map_filter g (filter P xs) = List.map_filter g xs"
  by (induction xs) (auto simp: map_filter_simps split: option.split)

lemma inflight_busy:
  assumes "pool_inv s"
  shows "inflight s = List.map_filter (onerror s) (busy s)"
proof -
  have "x \<in> set (workers s) \<Longrightarrow> \<not> x \<notin> set (freeWorkers s) \<Longrightarrow> onerror s x = None" for x
    using assms by (auto simp: pool_inv_def)
  then have "List.map_filter (onerror s) (filter (\<lambda>w. w \<notin> set (freeWorkers s)) (workers s))
      = List.map_filter (onerror s) (workers s)"
    by (rule map_filter_filter)
  then show ?thesis
    unfolding inflight_def busy_def by simp
qed

lemma rejections_dispose_events:
  "pool_inv s \<Longrightarrow>
   rejections (dispose_events s) = map (\<lambda>f. (f, disposed)) (outstanding s)"
  by (simp add: dispose_events_def outstanding_def rejections_append rejections_Terminate
      rejections_queue rejections_busy inflight_busy)

lemma resolutions_dispose_events: "resolutions (dispose_events s) = []"
  by (simp add: dispose_events_def resolutions_append resolutions_Terminate
      resolutions_queue resolutions_busy)

lemma posted_dispose_events: "posted (dispose_events s) = []"
proof -
  have a: "posted (map Terminate xs) = []" for xs :: "worker list"
    by (induction xs) simp_all
  have b: "posted (map (\<lambda>(f, args). Reject f e) q) = []" for q :: "(future \<times> 'a jsvalue list) list" and e
    by (induction q) auto
  have c: "posted (concat (map (\<lambda>x. case g x of None \<Rightarrow> [Terminate x]
                                   | Some f \<Rightarrow> [Terminate x, Reject f e]) xs)) = []"
    for g xs and e :: "'a jserror"
    by (induction xs) (auto split: option.split)
  show ?thesis
    by (simp add: dispose_events_def posted_append a b c)
qed

lemma length_map_filter_Some:
  "set xs \<subseteq> dom g \<Longrightarrow> length (List.map_filter g xs) = length xs"
  by (induction xs) (auto simp: map_filter_simps)

lemma length_busy:
  assumes "pool_inv s"
  shows "int (length (busy s)) = int (length (workers s)) - int (length (freeWorkers s))"
proof -
  from assms have d: "distinct (workers s)" "distinct (freeWorkers s)"
    and sub: "set (freeWorkers s) \<subseteq> set (workers s)"
    by (auto simp: pool_inv_def)
  have "distinct (busy s)" using d by (simp add: busy_def)
  then have "length (busy s) = card (set (workers s) - set (freeWorkers s))"
    by (metis distinct_card busy_def set_filter set_diff_eq)
  also have "\<dots> = card (set (workers s)) - card (set (freeWorkers s))"
    using sub by (simp add: card_Diff_subset)
  also have "\<dots> = length (workers s) - length (freeWorkers s)"
    using d by (simp add: distinct_card)
  finally have "length (busy s) = length (workers s) - length (freeWorkers s)" .
  moreover have "length (freeWorkers s) \<le> length (workers s)"
    using d sub by (metis card_mono distinct_card List.finite_set)
  ultimately show ?thesis by simp
qed

lemma length_inflight:
  "pool_inv s \<Longrightarrow> int (length (inflight s)) = getRunningWorkerCount s"
  by (simp add: inflight_busy length_map_filter_Some busy_dom length_busy getRunningWorkerCount_def)

lemma set_map_filter: "set (List.map_filter g xs) = {f. \<exists>x \<in> set xs. g x = Some f}"
  by (induction xs) (auto simp: map_filter_simps split: option.split)

lemma distinct_map_filter:
  "distinct xs \<Longrightarrow> (\<And>x y f. g x = Some f \<Longrightarrow> g y = Some f \<Longrightarrow> x = y) \<Longrightarrow>
   distinct (List.map_filter g xs)"
  by (induction xs) (auto simp: map_filter_simps set_map_filter split: option.split)

lemma outstanding_fresh:
  assumes "pool_inv s" and "futures_inv s"
  shows "distinct (outstanding s)"
    and "set (outstanding s) \<inter> settled (trace s) \<subseteq> set (inflight s) - set (posted (trace s))"
proof -
  from assms(2) have st: "settled (trace s) \<subseteq> set (taken (trace s))"
    and h: "\<And>w f. onerror s w = Some f \<Longrightarrow>
        f \<in> set (taken (trace s)) \<and> (f \<in> set (posted (trace s)) \<longrightarrow> f \<notin> settled (trace s))"
    and inj: "\<And>w w' f. onerror s w = Some f \<Longrightarrow> onerror s w' = Some f \<Longrightarrow> w = w'"
    by (auto simp: futures_inv_def)
  have d: "distinct (taken (trace s))" "distinct (map fst (queue s))"
    "set (taken (trace s)) \<inter> set (map fst (queue s)) = {}"
    using futures_inv_distinct [OF assms(2)] by auto
  from assms(1) have "distinct (workers s)" by (simp add: pool_inv_def)
  then have di: "distinct (inflight s)"
    unfolding inflight_def using inj by (rule distinct_map_filter)
  have sub: "set (inflight s) \<subseteq> set (taken (trace s))"
    using h by (auto simp: inflight_def set_map_filter)
  have un: "set (inflight s) \<inter> set (posted (trace s)) \<inter> settled (trace s) = {}"
    using h by (auto simp: inflight_def set_map_filter)
  show "distinct (outstanding s)"
    using d di sub by (auto simp: outstanding_def)
  show "set (outstanding s) \<inter> settled (trace s) \<subseteq> set (inflight s) - set (posted (trace s))"
    using d st un by (auto simp: outstanding_def)
qed

subsection \<open>After dispose\<close>

lemma dispose_busy_queue:
  "dispose_busy xs t = Inr t' \<Longrightarrow> queue t = [] \<Longrightarrow> queue t' = [] \<and> posted (trace t') = posted (trace t)"
  using dispose_busy_any [of xs t t'] by (auto simp: posted_append)

lemma exec_dead:
  assumes "dead s"
  shows "dead (exec op s) \<and> trace (exec op s) = trace s \<and> promises s \<le> promises (exec op s)"
proof (cases op)
  case (Dispatch args)
  with assms show ?thesis
    by (simp add: dead_def exec_dispatch_busy)
next
  case (WorkerMessage w d)
  with assms show ?thesis
    by (simp add: dead_def exec_message_null)
next
  case (WorkerError w e)
  with assms show ?thesis
    by (simp add: dead_def exec_error_null)
qed

lemma run_dead:
  "dead s \<Longrightarrow> dead (run ops s) \<and> trace (run ops s) = trace s \<and> promises s \<le> promises (run ops s)"
proof (induction ops arbitrary: s)
  case Nil
  then show ?case by (simp add: run_def)
next
  case (Cons op ops)
  from exec_dead [OF Cons.prems, of op] Cons.IH [of "exec op s"] show ?case
    by (auto simp: run_def)
qed

lemma dispose_dead: "pool_inv s \<Longrightarrow> dispose s = Inr d \<Longrightarrow> dead d"
  using dispose_ok [of s] by (auto simp: dead_def)

lemma settled_dispose_events:
  "pool_inv s \<Longrightarrow> settled (dispose_events s) = set (outstanding s)"
  by (simp add: settled_def rejections_dispose_events resolutions_dispose_events image_image)

lemma settled_bound:
  assumes "pool_inv s" and "futures_inv s" and "dispose s = Inr d"
  shows "settled (trace d) \<subseteq> {..<promises d}"
proof -
  from dispose_ok [OF assms(1)] assms(3)
  have d: "trace d = trace s @ dispose_events s" "promises d = promises s"
    by auto
  from assms(2) have all: "taken (trace s) @ map fst (queue s) = [0..<promises s]"
    and st: "settled (trace s) \<subseteq> set (taken (trace s))"
    and h: "\<And>w f. onerror s w = Some f \<Longrightarrow> f \<in> set (taken (trace s))"
    by (auto simp: futures_inv_def)
  have "set (taken (trace s)) \<union> set (map fst (queue s)) = {..<promises s}"
    using arg_cong [OF all, of set] by (simp add: lessThan_atLeast0)
  moreover have "set (inflight s) \<subseteq> set (taken (trace s))"
    using h by (auto simp: inflight_def set_map_filter)
  ultimately have "set (outstanding s) \<subseteq> {..<promises s}" "settled (trace s) \<subseteq> {..<promises s}"
    using st by (auto simp: outstanding_def)
  then show ?thesis
    using d by (simp add: settled_append settled_dispose_events [OF assms(1)])
qed

subsection \<open>Computing with the example pools\<close>

lemmas pool_eval =
  run_def exec.simps dispatch_def start_def clonable_def onFinish_def message_handler_def error_handler_def
  resolve_def reject_def terminate_def Let_def
  getFreeWorkerCount_def getRunningWorkerCount_def getWaitingEventCount_def

lemma construct_two: "construct ''f'' (Finite 2) = Inr pool_of_two"
  by (simp add: construct_def pool_of_two_def Let_def upt_conv_Cons)

lemma construct_integer:
  assumes "construct fn (Finite (of_int N)) = Inr p"
  shows "workers p = [0..<nat N]" and "freeWorkers p = [0..<nat N]" and "queue p = []" and "1 \<le> N"
  using assms
  by (auto simp: construct_def Let_def split: if_splits)

lemma run_three: "queue (run [Dispatch [Plain 1], Dispatch [Plain 2], Dispatch [Plain 3]] pool_of_two) = [(2, [Plain 3])]"
  by (simp add: pool_eval pool_of_two_def)

lemma dispose_two: "dispose pool_of_two = Inr disposed_pool_of_two"
  by (simp add: dispose_unfold busy_def pool_of_two_def disposed_pool_of_two_def)

lemma dispose_three:
  "dispose (run [Dispatch [Plain 1], Dispatch [Plain 2], Dispatch [Plain 3]] pool_of_two)
   = Inr \<lparr> queue = [], freeWorkers = [], workers = [],
       onmessage = (\<lambda>w. None), onerror = (\<lambda>w. None),
       trace = [PostMessage 1 0 [Plain 1], PostMessage 0 1 [Plain 2], Reject 2 disposed,
                Terminate 0, Reject 1 disposed, Terminate 1, Reject 0 disposed],
       promises = 3 \<rparr>"
  by (simp add: dispose_unfold busy_def pool_eval pool_of_two_def error_handler_def fun_eq_iff)

lemma dispose_three_partly:
  "dispose_busy [0] (dispose_queue (dispose_free (run [Dispatch [Plain 1], Dispatch [Plain 2], Dispatch [Plain 3]] pool_of_two)))
   = Inr \<lparr> queue = [], freeWorkers = [0], workers = [0, 1],
       onmessage = (\<lambda>w. None)(1 := Some 0), onerror = (\<lambda>w. None)(1 := Some 0),
       trace = [PostMessage 1 0 [Plain 1], PostMessage 0 1 [Plain 2], Reject 2 disposed, Terminate 0, Reject 1 disposed],
       promises = 3 \<rparr>"
  by (simp add: dispose_queue_eq dispose_free_eq busy_def pool_eval pool_of_two_def
      error_handler_def fun_eq_iff)

lemma freed_pool_fields:
  "freeWorkers freed_pool = [1]"
  "onerror freed_pool 0 = Some 1"
  "queue freed_pool = []"
  "trace freed_pool = [PostMessage 1 0 [Plain 1], PostMessage 0 1 [Plain 2], Resolve 0 5]"
  "promises freed_pool = 2"
  by (simp_all add: freed_pool_def pool_eval pool_of_two_def)

lemma waiting_pool_fields:
  "freeWorkers waiting_pool = []"
  "onerror waiting_pool 1 = Some 0"
  "queue waiting_pool = [(2, [Plain 3])]"
  "trace waiting_pool = [PostMessage 1 0 [Plain 1], PostMessage 0 1 [Plain 2]]"
  "promises waiting_pool = 3"
  by (simp_all add: waiting_pool_def pool_eval pool_of_two_def)

lemma floor_three_halves: "\<lfloor>3 / 2 :: rat\<rfloor> = 1"
  by (rule floor_unique) simp_all

lemma construct_one: "construct ''f'' (Finite 1) = Inr pool_of_one"
  by (simp add: construct_def pool_of_one_def Let_def)

lemma blocked_pool_fields:
  "freeWorkers blocked_pool = []"
  "onmessage blocked_pool 0 = Some 0"
  "onerror blocked_pool 0 = Some 0"
  "queue blocked_pool = [(1, [Unclonable])]"
  "trace blocked_pool = [PostMessage 0 0 [Plain 1]]"
  "promises blocked_pool = 2"
  "workers blocked_pool = [0]"
  by (simp_all add: blocked_pool_def pool_eval pool_of_one_def)

lemma wedged_pool_fields:
  "freeWorkers wedged_pool = []"
  "onmessage wedged_pool 0 = Some 1"
  "onerror wedged_pool 0 = Some 1"
  "queue wedged_pool = []"
  "trace wedged_pool = [PostMessage 0 0 [Plain 1], PostMessageThrew 0 1 [Unclonable]]"
  "promises wedged_pool = 2"
  "workers wedged_pool = [0]"
  by (simp_all add: wedged_pool_def pool_eval pool_of_one_def)


lemma sorted_posted:
  "sorted_wrt (<) (taken es @ ys) \<Longrightarrow> sorted_wrt (<) (posted es @ ys)"
proof (induction es rule: taken.induct)
  case (2 w f args es)
  then show ?case
    using posted_subset_taken [of es] by auto
next
  case (3 w f args es)
  then show ?case by simp
qed simp_all

section \<open>The claims\<close>


text \<open>
  Claim C2. A call is assigned to a worker when \<open>start\<close> pops the worker and binds its
  handlers to the call (lines 79 to 88). In every state reached by dispatches and worker
  notifications, the promises assigned so far, in the order of assignment, followed by the
  promises still in the queue, in the order of the queue, are the promises \<open>0, 1, 2, ...\<close>
  in the order \<open>dispatch\<close> made them; the messages really sent follow that order too. A
  dispatch that finds no free worker appends its call at the tail, and a worker that
  settles while calls wait takes the head. So calls that wait are assigned in the order in
  which they were queued. A dispatch that finds free workers takes the last of
  \<open>freeWorkers\<close>, and a worker that settles while nothing waits is put at the end of
  \<open>freeWorkers\<close>: the worker freed last is used first.
\<close>

theorem queue_fifo_workers_lifo:
  assumes "construct fn sz = Inr p" and "s = run ops p"
  shows "taken (trace s) @ map fst (queue s) = [0..<promises s]
     \<and> sorted_wrt (<) (posted (trace s) @ map fst (queue s))
     \<and> (freeWorkers s = [] \<longrightarrow>
          exec (Dispatch args) s =
            s\<lparr> queue := queue s @ [(promises s, args)], promises := Suc (promises s) \<rparr>)
     \<and> (onerror s w = Some f \<and> queue s = (g, a) # rest \<longrightarrow>
          queue (exec (WorkerMessage w d) s) = rest
          \<and> onerror (exec (WorkerMessage w d) s) w = Some g
          \<and> taken (trace (exec (WorkerMessage w d) s)) = taken (trace s) @ [g]
          \<and> queue (exec (WorkerError w e) s) = rest
          \<and> onerror (exec (WorkerError w e) s) w = Some g
          \<and> taken (trace (exec (WorkerError w e) s)) = taken (trace s) @ [g]
          \<and> (clonable a \<longrightarrow>
               posted (trace (exec (WorkerMessage w d) s)) = posted (trace s) @ [g]
               \<and> posted (trace (exec (WorkerError w e) s)) = posted (trace s) @ [g]))
     \<and> (freeWorkers s \<noteq> [] \<longrightarrow>
          onerror (exec (Dispatch args) s) (last (freeWorkers s)) = Some (promises s)
          \<and> freeWorkers (exec (Dispatch args) s) = butlast (freeWorkers s)
          \<and> taken (trace (exec (Dispatch args) s)) = taken (trace s) @ [promises s]
          \<and> (clonable args \<longrightarrow>
               trace (exec (Dispatch args) s) =
                 trace s @ [PostMessage (last (freeWorkers s)) (promises s) args]))
     \<and> (onerror s w = Some f \<and> queue s = [] \<longrightarrow>
          freeWorkers (exec (WorkerMessage w d) s) = freeWorkers s @ [w]
          \<and> freeWorkers (exec (WorkerError w e) s) = freeWorkers s @ [w]
          \<and> (clonable args \<longrightarrow>
               trace (run [WorkerMessage w d, Dispatch args] s) =
                 trace s @ [Resolve f d, PostMessage w (promises s) args]))"
proof -
  from assms have inv: "pool_inv s" "futures_inv s"
    by (simp_all add: run_construct_inv)
  from inv(2) have order: "taken (trace s) @ map fst (queue s) = [0..<promises s]"
    by (simp add: futures_inv_def)
  then have "sorted_wrt (<) (taken (trace s) @ map fst (queue s))"
    by (simp add: sorted_wrt_upt)
  then have sent: "sorted_wrt (<) (posted (trace s) @ map fst (queue s))"
    by (rule sorted_posted)
  have tail: "exec (Dispatch args) s =
            s\<lparr> queue := queue s @ [(promises s, args)], promises := Suc (promises s) \<rparr>"
    if "freeWorkers s = []"
    using that by (rule exec_dispatch_busy)
  have head: "queue (exec (WorkerMessage w d) s) = rest
          \<and> onerror (exec (WorkerMessage w d) s) w = Some g
          \<and> taken (trace (exec (WorkerMessage w d) s)) = taken (trace s) @ [g]
          \<and> queue (exec (WorkerError w e) s) = rest
          \<and> onerror (exec (WorkerError w e) s) w = Some g
          \<and> taken (trace (exec (WorkerError w e) s)) = taken (trace s) @ [g]
          \<and> (clonable a \<longrightarrow>
               posted (trace (exec (WorkerMessage w d) s)) = posted (trace s) @ [g]
               \<and> posted (trace (exec (WorkerError w e) s)) = posted (trace s) @ [g])"
    if h: "onerror s w = Some f" and q: "queue s = (g, a) # rest"
  proof -
    from inv(1) h have m: "onmessage s w = Some f"
      by (simp add: pool_inv_busy)
    show ?thesis
    proof (cases "clonable a")
      case True
      then show ?thesis
        by (simp add: exec_message_post [OF m q True] exec_error_post [OF h q True]
            taken_append posted_append)
    next
      case False
      then show ?thesis
        by (simp add: exec_message_throw [OF m q False] exec_error_throw [OF h q False]
            taken_append)
    qed
  qed
  have top: "onerror (exec (Dispatch args) s) (last (freeWorkers s)) = Some (promises s)
          \<and> freeWorkers (exec (Dispatch args) s) = butlast (freeWorkers s)
          \<and> taken (trace (exec (Dispatch args) s)) = taken (trace s) @ [promises s]
          \<and> (clonable args \<longrightarrow>
               trace (exec (Dispatch args) s) =
                 trace s @ [PostMessage (last (freeWorkers s)) (promises s) args])"
    if fw: "freeWorkers s \<noteq> []"
  proof (cases "clonable args")
    case True
    then show ?thesis
      by (simp add: exec_dispatch_post [OF fw True] taken_append)
  next
    case False
    then show ?thesis
      by (simp add: exec_dispatch_throw [OF fw False] taken_append)
  qed
  have push: "freeWorkers (exec (WorkerMessage w d) s) = freeWorkers s @ [w]
          \<and> freeWorkers (exec (WorkerError w e) s) = freeWorkers s @ [w]
          \<and> (clonable args \<longrightarrow>
               trace (run [WorkerMessage w d, Dispatch args] s) =
                 trace s @ [Resolve f d, PostMessage w (promises s) args])"
    if h: "onerror s w = Some f" and q: "queue s = []"
  proof -
    from inv(1) h have m: "onmessage s w = Some f"
      by (simp add: pool_inv_busy)
    show ?thesis
      by (simp add: run_def exec_message_idle [OF m q] exec_error_idle [OF h q]
          exec_dispatch_post)
  qed
  from order sent tail head top push show ?thesis
    by blast
qed

theorem queue_fifo_workers_lifo_witness:
  "construct ''f'' (Finite 2) = Inr pool_of_two
   \<and> waiting_pool = run [Dispatch [Plain 1], Dispatch [Plain 2], Dispatch [Plain 3]] pool_of_two
   \<and> taken (trace waiting_pool) @ map fst (queue waiting_pool) = [0, 1, 2]
   \<and> freeWorkers waiting_pool = []
   \<and> exec (Dispatch [Plain 4]) waiting_pool
       = waiting_pool\<lparr> queue := [(2, [Plain 3]), (3, [Plain 4])], promises := 4 \<rparr>
   \<and> onerror waiting_pool 1 = Some 0
   \<and> queue waiting_pool = [(2, [Plain 3])]
   \<and> clonable [Plain (3::int)]
   \<and> queue (exec (WorkerMessage 1 6) waiting_pool) = []
   \<and> onerror (exec (WorkerMessage 1 6) waiting_pool) 1 = Some 2
   \<and> posted (trace (exec (WorkerMessage 1 6) waiting_pool)) = [0, 1, 2]
   \<and> posted (trace (exec (WorkerError 1 (Thrown 0)) waiting_pool)) = [0, 1, 2]
   \<and> freed_pool = run [Dispatch [Plain 1], Dispatch [Plain 2], WorkerMessage 1 5] pool_of_two
   \<and> freeWorkers freed_pool = [1]
   \<and> trace (exec (Dispatch [Plain 3]) freed_pool)
       = [PostMessage 1 0 [Plain 1], PostMessage 0 1 [Plain 2], Resolve 0 5,
          PostMessage 1 2 [Plain 3]]
   \<and> freeWorkers (exec (Dispatch [Plain 3]) freed_pool) = []
   \<and> onerror freed_pool 0 = Some 1
   \<and> queue freed_pool = []
   \<and> freeWorkers (exec (WorkerMessage 0 6) freed_pool) = [1, 0]
   \<and> trace (run [WorkerMessage 0 6, Dispatch [Plain 3]] freed_pool)
       = [PostMessage 1 0 [Plain 1], PostMessage 0 1 [Plain 2], Resolve 0 5, Resolve 1 6,
          PostMessage 0 2 [Plain 3]]"
proof -
  have c: "clonable [Plain (3::int)]"
    by (simp add: clonable_def)
  have p: "posted (trace waiting_pool) = [0, 1]"
    by (simp add: waiting_pool_fields)
  from queue_fifo_workers_lifo
      [OF construct_two waiting_pool_def, of "[Plain 4]" 1 0 2 "[Plain 3]" "[]" 6 "Thrown 0"]
    queue_fifo_workers_lifo
      [OF construct_two freed_pool_def, of "[Plain 3]" 0 1 2 "[Plain 3]" "[]" 6 "Thrown 0"]
    construct_two freed_pool_def waiting_pool_def freed_pool_fields waiting_pool_fields c p
  show ?thesis
    by (simp add: upt_conv_Cons)
qed

text \<open>
  Claim C3. In every state reached from a constructed pool by dispatches and worker
  notifications, each run to its end: when \<open>getWaitingEventCount\<close> is positive,
  \<open>getFreeWorkerCount\<close> is 0.
\<close>

theorem no_wait_beside_free_worker:
  assumes "construct fn sz = Inr p"
    and "0 < getWaitingEventCount (run ops p)"
  shows "getFreeWorkerCount (run ops p) = 0"
proof -
  from assms(1) have "pool_inv (run ops p)"
    by (simp add: run_construct_inv)
  with assms(2) show ?thesis
    by (auto simp: pool_inv_def getWaitingEventCount_def getFreeWorkerCount_def)
qed

theorem no_wait_beside_free_worker_witness:
  "construct ''f'' (Finite 2) = Inr pool_of_two
   \<and> 0 < getWaitingEventCount (run [Dispatch [Plain 1], Dispatch [Plain 2], Dispatch [Plain 3]] pool_of_two)
   \<and> getFreeWorkerCount (run [Dispatch [Plain 1], Dispatch [Plain 2], Dispatch [Plain 3]] pool_of_two) = 0"
proof -
  have w: "0 < getWaitingEventCount (run [Dispatch [Plain 1], Dispatch [Plain 2], Dispatch [Plain 3]] pool_of_two)"
    by (simp add: getWaitingEventCount_def run_three)
  from no_wait_beside_free_worker [OF construct_two w] construct_two w show ?thesis
    by simp
qed

text \<open>
  Claim C4. A pool is constructed with an integer worker count \<open>N\<close>. In the fresh pool
  \<open>getFreeWorkerCount\<close> is \<open>N\<close> and \<open>getRunningWorkerCount\<close> is 0, and after every
  sequence of dispatches and worker notifications (no \<open>dispose\<close> yet) the two gauges add
  up to \<open>N\<close>, where the running gauge counts the workers that carry a handler.
\<close>

theorem worker_count_invariant:
  assumes "construct fn (Finite (of_int N)) = Inr p"
  shows "getFreeWorkerCount (run ops p) + getRunningWorkerCount (run ops p) = N
       \<and> getRunningWorkerCount (run ops p) = int (length (inflight (run ops p)))
       \<and> getFreeWorkerCount p = N \<and> getRunningWorkerCount p = 0"
proof -
  from assms have "pool_inv (run ops p)"
    by (simp add: run_construct_inv)
  then have "int (length (inflight (run ops p))) = getRunningWorkerCount (run ops p)"
    by (rule length_inflight)
  with construct_integer [OF assms] show ?thesis
    by (simp add: getFreeWorkerCount_def getRunningWorkerCount_def)
qed

theorem worker_count_invariant_witness:
  "construct ''f'' (Finite 2) = Inr pool_of_two
   \<and> getFreeWorkerCount (run [Dispatch [Plain 1], Dispatch [Plain 2], Dispatch [Plain 3], WorkerMessage 1 5] pool_of_two)
     + getRunningWorkerCount (run [Dispatch [Plain 1], Dispatch [Plain 2], Dispatch [Plain 3], WorkerMessage 1 5] pool_of_two) = 2
   \<and> getFreeWorkerCount pool_of_two = 2 \<and> getRunningWorkerCount pool_of_two = 0"
  using construct_two
    worker_count_invariant [of "''f''" 2 pool_of_two "[Dispatch [Plain 1], Dispatch [Plain 2], Dispatch [Plain 3], WorkerMessage 1 5]"]
  by simp

text \<open>
  Claim C5, as the code has it. For a finite number \<open>size\<close> the constructor throws its
  \<open>RangeError\<close>, before any worker is made, exactly when \<open>size < 1\<close>. For an integer
  \<open>size\<close> that is exactly when \<open>size\<close> is not positive, so 0 and -1 fail; and an
  integer from 1 up to the largest array length gives a pool of that many workers.
\<close>

theorem construct_guard:
  "((construct fn (Finite q) :: 'a jserror + 'a pool)
        = Inl (RangeError ''size must greater than 0'')) = (q < 1)
   \<and> ((construct fn (Finite (of_int N)) :: 'a jserror + 'a pool)
        = Inl (RangeError ''size must greater than 0'')) = (N \<le> 0)
   \<and> (construct fn (Finite 0) :: 'a jserror + 'a pool)
        = Inl (RangeError ''size must greater than 0'')
   \<and> (construct fn (Finite (- 1)) :: 'a jserror + 'a pool)
        = Inl (RangeError ''size must greater than 0'')
   \<and> (1 \<le> N \<and> N < 2 ^ 32 \<longrightarrow>
        (\<exists>p :: 'a pool. construct fn (Finite (of_int N)) = Inr p
           \<and> workers p = [0..<nat N] \<and> freeWorkers p = [0..<nat N] \<and> queue p = []))"
proof -
  have a: "((construct fn (Finite r) :: 'a jserror + 'a pool)
      = Inl (RangeError ''size must greater than 0'')) = (r < 1)"
    for r
    by (simp add: construct_def Let_def)
  have b: "(rat_of_int N < 1) = (N \<le> 0)"
    by auto
  have c: "\<exists>p :: 'a pool. construct fn (Finite (of_int N)) = Inr p
           \<and> workers p = [0..<nat N] \<and> freeWorkers p = [0..<nat N] \<and> queue p = []"
    if "1 \<le> N" "N < 2 ^ 32"
  proof -
    from that have "nat N \<le> 2 ^ 32 - 1" "nat N \<le> 2 ^ 53 - 1"
      by auto
    with that show ?thesis
      by (simp add: construct_def Let_def min_def)
  qed
  from a [of q] a [of "of_int N"] a [of 0] a [of "- 1"] b c
  show ?thesis by simp
qed

theorem construct_guard_witness:
  "(1::int) \<le> 2 \<and> (2::int) < 2 ^ 32
   \<and> construct ''f'' (Finite 2) = Inr pool_of_two
   \<and> workers pool_of_two = [0..<2]"
  using construct_guard [where ?'a = int, of "''f''" 2 2] construct_two
  by (simp add: pool_of_two_def upt_conv_Cons)

theorem construct_accepts_non_integers_counterexample:
  "\<not> positive_integer (Finite (3 / 2))
   \<and> construct ''f'' (Finite (3 / 2)) = Inr pool_of_one
   \<and> construct ''f'' (Finite 1) = Inr pool_of_one"
  by (simp add: construct_def Let_def floor_three_halves pool_of_one_def)

text \<open>
  Claim C6, where the code departs from it. One worker runs the call of promise 0, and
  behind it waits a call whose argument cannot be cloned. The worker fires its error event:
  the handler calls \<open>onFinish\<close>, which hands the waiting call to the worker; there
  \<open>postMessage\<close> throws, so the handler ends at line 85 and \<open>reject(e.error)\<close> at line 86
  does not run. No promise is rejected, the worker is not free and has been sent nothing,
  and the next dispatch waits in the queue.
\<close>

theorem worker_error_before_unclonable_call:
  "construct ''f'' (Finite 1) = Inr pool_of_one
   \<and> blocked_pool = run [Dispatch [Plain 1], Dispatch [Unclonable]] pool_of_one
   \<and> onerror blocked_pool 0 = Some 0
   \<and> queue blocked_pool = [(1, [Unclonable])]
   \<and> fst (error_handler 0 0 (Thrown 4) blocked_pool) = Some DataCloneError
   \<and> trace (exec (WorkerError 0 (Thrown 4)) blocked_pool)
       = [PostMessage 0 0 [Plain 1], PostMessageThrew 0 1 [Unclonable]]
   \<and> rejections (trace (exec (WorkerError 0 (Thrown 4)) blocked_pool)) = []
   \<and> freeWorkers (exec (WorkerError 0 (Thrown 4)) blocked_pool) = []
   \<and> onerror (exec (WorkerError 0 (Thrown 4)) blocked_pool) 0 = Some 1
   \<and> getRunningWorkerCount (exec (WorkerError 0 (Thrown 4)) blocked_pool) = 1
   \<and> queue (exec (Dispatch [Plain 2]) (exec (WorkerError 0 (Thrown 4)) blocked_pool))
       = [(2, [Plain 2])]
   \<and> trace (exec (Dispatch [Plain 2]) (exec (WorkerError 0 (Thrown 4)) blocked_pool))
       = [PostMessage 0 0 [Plain 1], PostMessageThrew 0 1 [Unclonable]]"
proof -
  have n: "\<not> clonable [Unclonable :: int jsvalue]"
    by (simp add: clonable_def)
  have t: "fst (error_handler 0 0 (Thrown 4) blocked_pool) = Some DataCloneError"
    by (simp add: error_handler_def onFinish_throw [OF blocked_pool_fields(4) n])
  have e: "exec (WorkerError 0 (Thrown 4)) blocked_pool =
      blocked_pool\<lparr> queue := [], onmessage := (onmessage blocked_pool)(0 := Some 1),
        onerror := (onerror blocked_pool)(0 := Some 1),
        trace := trace blocked_pool @ [PostMessageThrew 0 1 [Unclonable]] \<rparr>"
    by (rule exec_error_throw [OF blocked_pool_fields(3,4) n])
  show ?thesis
    using construct_one blocked_pool_def t
    by (simp add: e exec_dispatch_busy blocked_pool_fields getRunningWorkerCount_def)
qed

text \<open>
  Claim C7, where the code departs from it. One worker runs the call of promise 0, and
  behind it waits a call whose argument cannot be cloned. The worker answers: the handlers
  are detached, the head leaves the queue and the handlers of the same worker are bound to
  it, but \<open>postMessage\<close> throws at line 88. The handler ends at line 81: nothing has been
  sent to the worker, and promise 0 is not resolved, then or later.
\<close>

theorem worker_message_before_unclonable_call:
  "construct ''f'' (Finite 1) = Inr pool_of_one
   \<and> blocked_pool = run [Dispatch [Plain 1], Dispatch [Unclonable]] pool_of_one
   \<and> onmessage blocked_pool 0 = Some 0
   \<and> queue blocked_pool = [(1, [Unclonable])]
   \<and> fst (message_handler 0 0 9 blocked_pool) = Some DataCloneError
   \<and> exec (WorkerMessage 0 9) blocked_pool = wedged_pool
   \<and> queue wedged_pool = []
   \<and> onmessage wedged_pool 0 = Some 1 \<and> onerror wedged_pool 0 = Some 1
   \<and> freeWorkers wedged_pool = []
   \<and> trace wedged_pool = [PostMessage 0 0 [Plain 1], PostMessageThrew 0 1 [Unclonable]]
   \<and> posted (trace wedged_pool) = [0]
   \<and> resolutions (trace wedged_pool) = []
   \<and> settled (trace wedged_pool) = {}"
proof -
  have n: "\<not> clonable [Unclonable :: int jsvalue]"
    by (simp add: clonable_def)
  have t: "fst (message_handler 0 0 9 blocked_pool) = Some DataCloneError"
    by (simp add: message_handler_def onFinish_throw [OF blocked_pool_fields(4) n])
  have e: "exec (WorkerMessage 0 9) blocked_pool = wedged_pool"
    unfolding wedged_pool_def blocked_pool_def
    using run_snoc [of "[Dispatch [Plain 1], Dispatch [Unclonable]]" "WorkerMessage 0 9" pool_of_one]
    by simp
  show ?thesis
    using construct_one blocked_pool_def t e
    by (simp add: blocked_pool_fields wedged_pool_fields)
qed

text \<open>
  Claim C8, as the code has it. \<open>dispose\<close> has returned on a pool reached by dispatches
  and worker notifications. Whatever dispatches and notifications follow, a further
  \<open>dispatch(args)\<close> finds no free worker, so \<open>start\<close> appends the call to the queue: the
  new promise waits there, the trace keeps what it held when \<open>dispose\<close> returned, and
  nothing in it settles the new promise.
\<close>

theorem dispatch_after_dispose_waits:
  assumes "construct fn sz = Inr p" and "dispose (run ops p) = Inr d"
  shows "dispatch args (run ops' d) =
           (promises (run ops' d),
            (run ops' d)\<lparr> queue := queue (run ops' d) @ [(promises (run ops' d), args)],
                           promises := Suc (promises (run ops' d)) \<rparr>)
     \<and> trace (run ops' d) = trace d
     \<and> promises (run ops' d) \<notin> settled (trace d)"
proof -
  from assms(1) have inv: "pool_inv (run ops p)" "futures_inv (run ops p)"
    by (simp_all add: run_construct_inv)
  from inv(1) assms(2) have "dead d"
    by (rule dispose_dead)
  from run_dead [OF this, of ops'] have d: "freeWorkers (run ops' d) = []"
    "trace (run ops' d) = trace d" "promises d \<le> promises (run ops' d)"
    by (simp_all add: dead_def)
  from settled_bound [OF inv assms(2)] d(3) have "promises (run ops' d) \<notin> settled (trace d)"
    by auto
  with d show ?thesis
    by (simp add: dispatch_def Let_def start_busy)
qed

theorem dispatch_after_dispose_waits_witness:
  "construct ''f'' (Finite 2) = Inr pool_of_two
   \<and> dispose (run [] pool_of_two) = Inr disposed_pool_of_two
   \<and> dispatch [Plain 7] (run [Dispatch [Plain 5]] disposed_pool_of_two) =
       (1, disposed_pool_of_two\<lparr> queue := [(0, [Plain 5]), (1, [Plain 7])], promises := 2 \<rparr>)
   \<and> trace (run [Dispatch [Plain 5]] disposed_pool_of_two) = [Terminate 0, Terminate 1]
   \<and> 1 \<notin> settled (trace disposed_pool_of_two)"
proof -
  have d: "dispose (run [] pool_of_two) = Inr disposed_pool_of_two"
    by (simp add: run_def dispose_two)
  have r: "run [Dispatch [Plain 5]] disposed_pool_of_two
      = disposed_pool_of_two\<lparr> queue := [(0, [Plain 5])], promises := 1 \<rparr>"
    by (simp add: pool_eval disposed_pool_of_two_def)
  from dispatch_after_dispose_waits [OF construct_two d, of "[Plain 7]" "[Dispatch [Plain 5]]"] construct_two d
  show ?thesis
    by (simp add: r) (simp add: disposed_pool_of_two_def)
qed

theorem dispatch_after_dispose_counterexample:
  "construct ''f'' (Finite 2) = Inr pool_of_two
   \<and> dispose pool_of_two = Inr disposed_pool_of_two
   \<and> dispatch [Plain 7] disposed_pool_of_two
       = (0, disposed_pool_of_two\<lparr> queue := [(0, [Plain 7])], promises := 1 \<rparr>)
   \<and> rejections (trace (snd (dispatch [Plain 7] disposed_pool_of_two))) = []
   \<and> getWaitingEventCount (snd (dispatch [Plain 7] disposed_pool_of_two)) = 1"
  using construct_two dispose_two
  by (simp add: pool_eval disposed_pool_of_two_def)

text \<open>
  Claim C9. When \<open>dispose\<close> has returned, a second \<open>dispose\<close> returns the very same
  state: the Set, the stack and the queue are still empty, the three gauges read 0, and the
  trace, which holds every rejection made so far, has not grown.
\<close>

theorem dispose_idempotent:
  assumes "dispose s = Inr s'"
  shows "dispose s' = Inr s'
     \<and> workers s' = [] \<and> getFreeWorkerCount s' = 0 \<and> getRunningWorkerCount s' = 0
     \<and> getWaitingEventCount s' = 0"
  using dispose_twice [OF assms] dispose_any [OF assms]
  by (simp add: getFreeWorkerCount_def getRunningWorkerCount_def getWaitingEventCount_def)

theorem dispose_idempotent_witness:
  "dispose pool_of_two = Inr disposed_pool_of_two
   \<and> dispose disposed_pool_of_two = Inr disposed_pool_of_two
   \<and> workers disposed_pool_of_two = [] \<and> getFreeWorkerCount disposed_pool_of_two = 0
   \<and> getRunningWorkerCount disposed_pool_of_two = 0
   \<and> getWaitingEventCount disposed_pool_of_two = 0"
  using dispose_two dispose_idempotent [OF dispose_two]
  by simp

text \<open>
  Claim C10. Inside \<open>dispose\<close> the queue is rejected and emptied before the loop over the
  busy workers starts: the state that loop starts from has an empty queue and a trace that
  ends with the rejections of the queued calls. However far the loop has come, the queue is
  still empty and no call has been posted, so each error handler it invokes finds an empty
  queue; and when \<open>dispose\<close> returns, it has posted nothing to any worker.
\<close>

theorem dispose_empties_queue_first:
  "queue (dispose_queue (dispose_free s)) = []
   \<and> trace (dispose_queue (dispose_free s)) =
       trace s @ map Terminate (freeWorkers s) @ map (\<lambda>(f, args). Reject f disposed) (queue s)
   \<and> (\<forall>xs t. dispose_busy xs (dispose_queue (dispose_free s)) = Inr t \<longrightarrow>
         queue t = [] \<and> posted (trace t) = posted (trace s))
   \<and> (\<forall>s'. dispose s = Inr s' \<longrightarrow>
         queue s' = [] \<and> posted (trace s') = posted (trace s)
         \<and> (\<exists>es. trace s' = trace (dispose_queue (dispose_free s)) @ es))"
proof -
  let ?s2 = "dispose_queue (dispose_free s)"
  have q: "queue ?s2 = []"
    and tr: "trace ?s2 = trace s @ map Terminate (freeWorkers s)
                           @ map (\<lambda>(f, args). Reject f disposed) (queue s)"
    by (simp_all add: dispose_queue_eq dispose_free_eq)
  have p: "posted (trace ?s2) = posted (trace s)"
    using posted_dispose_events [of "s\<lparr> workers := [] \<rparr>"]
    by (simp add: tr posted_append dispose_events_def busy_def)
  have loop: "queue t = [] \<and> posted (trace t) = posted (trace s)"
    if "dispose_busy xs ?s2 = Inr t" for xs t
    using dispose_busy_queue [OF that q] p by simp
  have whole: "queue s' = [] \<and> posted (trace s') = posted (trace s)
         \<and> (\<exists>es. trace s' = trace ?s2 @ es)"
    if "dispose s = Inr s'" for s'
    using dispose_any [OF that] by (auto simp: tr posted_append p [unfolded tr, simplified posted_append])
  from q tr loop whole show ?thesis
    by blast
qed

theorem dispose_empties_queue_first_witness:
  "dispose_busy [0] (dispose_queue (dispose_free (run [Dispatch [Plain 1], Dispatch [Plain 2], Dispatch [Plain 3]] pool_of_two)))
   = Inr \<lparr> queue = [], freeWorkers = [0], workers = [0, 1],
       onmessage = (\<lambda>w. None)(1 := Some 0), onerror = (\<lambda>w. None)(1 := Some 0),
       trace = [PostMessage 1 0 [Plain 1], PostMessage 0 1 [Plain 2], Reject 2 disposed, Terminate 0, Reject 1 disposed],
       promises = 3 \<rparr>
   \<and> posted [PostMessage 1 0 [Plain 1], PostMessage 0 1 [Plain 2], Reject 2 disposed, Terminate 0, Reject 1 disposed :: int event]
       = posted (trace (run [Dispatch [Plain 1], Dispatch [Plain 2], Dispatch [Plain 3]] pool_of_two))
   \<and> dispose (run [Dispatch [Plain 1], Dispatch [Plain 2], Dispatch [Plain 3]] pool_of_two)
   = Inr \<lparr> queue = [], freeWorkers = [], workers = [],
       onmessage = (\<lambda>w. None), onerror = (\<lambda>w. None),
       trace = [PostMessage 1 0 [Plain 1], PostMessage 0 1 [Plain 2], Reject 2 disposed,
                Terminate 0, Reject 1 disposed, Terminate 1, Reject 0 disposed],
       promises = 3 \<rparr>
   \<and> posted [PostMessage 1 0 [Plain 1], PostMessage 0 1 [Plain 2], Reject 2 disposed,
                Terminate 0, Reject 1 disposed, Terminate 1, Reject 0 disposed :: int event]
       = posted (trace (run [Dispatch [Plain 1], Dispatch [Plain 2], Dispatch [Plain 3]] pool_of_two))"
  using dispose_empties_queue_first [of "run [Dispatch [Plain 1], Dispatch [Plain 2], Dispatch [Plain 3]] pool_of_two"]
    dispose_three_partly dispose_three
  by auto

end
